theory Spec2Isabelle
  imports Complex_Main
begin

section \<open>JavaScript numbers\<close>

text \<open>
  The script's numbers are binary64 values, and each arithmetic operation rounds its
  exact result to the nearest one, ties to the even significand. A number is modelled by
  the real it denotes and an operation by the exact operation followed by \<open>rnd\<close>.
  \<open>ilog2 x\<close> is the exponent of a positive \<open>x\<close> (the \<open>e\<close> with \<open>2^e \<le> x < 2^(e+1)\<close>);
  the spacing of the binary64 values around \<open>x\<close> is \<open>2^(e-52)\<close>, with \<open>e\<close> no smaller than
  -1022 (gradual underflow). Overflow to Infinity is not modelled: \<open>rnd\<close> is the
  binary64 rounding for results below \<open>2^1024\<close> in magnitude, and where binary64 gives
  Infinity it gives a number of the same sign and of magnitude \<open>2^1024\<close> or more, which
  compares with every binary64 value as Infinity does.
\<close>

function ilog2 :: "real \<Rightarrow> int" where
  "ilog2 x = (if x \<le> 0 then 0
              else if 2 \<le> x then ilog2 (x / 2) + 1
              else if x < 1 then ilog2 (x * 2) - 1
              else 0)"
  by pat_completeness auto
termination
proof (relation "measure (\<lambda>x. nat \<bar>\<lfloor>log 2 x\<rfloor>\<bar>)")
  show "wf (measure (\<lambda>x. nat \<bar>\<lfloor>log 2 x\<rfloor>\<bar>))" by simp
next
  fix x :: real
  assume "\<not> x \<le> 0" and "2 \<le> x"
  then have "1 \<le> log 2 x" by (simp add: le_log_iff)
  then have f: "1 \<le> \<lfloor>log 2 x\<rfloor>" by (simp add: le_floor_iff)
  have "log 2 (x / 2) = log 2 x - 1"
    using \<open>2 \<le> x\<close> by (simp add: log_divide)
  then have "\<lfloor>log 2 (x / 2)\<rfloor> = \<lfloor>log 2 x\<rfloor> - 1" by simp
  with f show "(x / 2, x) \<in> measure (\<lambda>x. nat \<bar>\<lfloor>log 2 x\<rfloor>\<bar>)" by simp
next
  fix x :: real
  assume pos: "\<not> x \<le> 0" and "\<not> 2 \<le> x" and "x < 1"
  then have "log 2 x < 0" by simp
  then have f: "\<lfloor>log 2 x\<rfloor> < 0" by (simp add: floor_less_iff)
  have "log 2 (x * 2) = log 2 x + 1"
    using pos by (simp add: log_mult)
  then have g: "\<lfloor>log 2 (x * 2)\<rfloor> = \<lfloor>log 2 x\<rfloor> + 1" by simp
  have "nat \<bar>\<lfloor>log 2 (x * 2)\<rfloor>\<bar> < nat \<bar>\<lfloor>log 2 x\<rfloor>\<bar>"
    unfolding g using f by linarith
  then show "(x * 2, x) \<in> measure (\<lambda>x. nat \<bar>\<lfloor>log 2 x\<rfloor>\<bar>)" by simp
qed

declare ilog2.simps [simp del]

definition roundEven :: "real \<Rightarrow> int" where
  "roundEven y =
     (let f = \<lfloor>y\<rfloor>; r = y - of_int f
      in if r < 1 / 2 then f
         else if r > 1 / 2 then f + 1
         else if even f then f else f + 1)"

definition rnd :: "real \<Rightarrow> real" where
  "rnd x =
     (if x = 0 then 0
      else
        let e = max (ilog2 \<bar>x\<bar>) (- 1022);
            u = 2 powi (e - 52)
        in of_int (roundEven (x / u)) * u)"

section \<open>Testimonial carousel (initTestimonialsSlider)\<close>

text \<open>
  The closure variables of \<open>initTestimonialsSlider\<close> and the part of the page it writes.
  \<open>cards.length\<close> is fixed after initialisation and is passed as the parameter \<open>L\<close>.
  The window's interval timers are the list \<open>intervals\<close> of live handles; \<open>setInterval\<close>
  hands out \<open>nextHandle\<close>. \<open>autoPlayInterval\<close> is \<open>None\<close> while the variable is undefined.
  \<open>trackTransform\<close> is the percentage written into \<open>translateX(-..%)\<close>, \<open>None\<close> before the
  first write; \<open>dotsActive\<close> holds, per dot, whether its class list has \<open>active\<close>.
\<close>

record slider =
  currentIndex :: int
  trackTransform :: "int option"
  dotsActive :: "bool list"
  autoPlayInterval :: "nat option"
  startX :: real
  isDragging :: bool
  intervals :: "nat list"
  nextHandle :: nat

definition goToSlide :: "nat \<Rightarrow> int \<Rightarrow> slider \<Rightarrow> slider" where
  "goToSlide L index s =
     (let index1 = (if index < 0 then int L - 1 else index);
          index2 = (if index1 \<ge> int L then 0 else index1)
      in s\<lparr>currentIndex := index2,
            trackTransform := Some (index2 * 100),
            dotsActive := map (\<lambda>i. int i = index2) [0..<length (dotsActive s)]\<rparr>)"

definition startAutoPlay :: "slider \<Rightarrow> slider" where
  "startAutoPlay s =
     s\<lparr>autoPlayInterval := Some (nextHandle s),
       intervals := intervals s @ [nextHandle s],
       nextHandle := Suc (nextHandle s)\<rparr>"

definition stopAutoPlay :: "slider \<Rightarrow> slider" where
  "stopAutoPlay s =
     (case autoPlayInterval s of
        None \<Rightarrow> s
      | Some h \<Rightarrow> s\<lparr>intervals := removeAll h (intervals s)\<rparr>)"

text \<open>
  The events the widget listens to. \<open>IntervalFires h\<close> is the callback of interval \<open>h\<close>;
  a cleared interval no longer fires. \<open>DotClick i\<close> reaches a listener only when dot \<open>i\<close>
  exists. \<open>TouchStart x\<close> and \<open>TouchEnd x\<close> carry the \<open>clientX\<close> of the touch; the
  subtraction \<open>startX - clientX\<close> in the touchend listener rounds.
\<close>

datatype slider_event =
    PrevClick
  | NextClick
  | DotClick nat
  | TouchStart real
  | TouchEnd real
  | IntervalFires nat

fun handle :: "nat \<Rightarrow> slider_event \<Rightarrow> slider \<Rightarrow> slider" where
  "handle L PrevClick s =
     startAutoPlay (goToSlide L (currentIndex (stopAutoPlay s) - 1) (stopAutoPlay s))"
| "handle L NextClick s =
     startAutoPlay (goToSlide L (currentIndex (stopAutoPlay s) + 1) (stopAutoPlay s))"
| "handle L (DotClick i) s =
     (if i < length (dotsActive s)
      then startAutoPlay (goToSlide L (int i) (stopAutoPlay s))
      else s)"
| "handle L (TouchStart x) s =
     stopAutoPlay (s\<lparr>startX := x, isDragging := True\<rparr>)"
| "handle L (TouchEnd x) s =
     (if \<not> isDragging s then s
      else
        let diff = rnd (startX s - x);
            s1 = (if \<bar>diff\<bar> > 50
                  then goToSlide L (if diff > 0 then currentIndex s + 1 else currentIndex s - 1) s
                  else s)
        in startAutoPlay (s1\<lparr>isDragging := False\<rparr>))"
| "handle L (IntervalFires h) s =
     (if h \<in> set (intervals s) then goToSlide L (currentIndex s + 1) s else s)"

fun run :: "nat \<Rightarrow> slider_event list \<Rightarrow> slider \<Rightarrow> slider" where
  "run L [] s = s"
| "run L (e # es) s = run L es (handle L e s)"

text \<open>
  The state at the end of \<open>initTestimonialsSlider\<close> when all four elements exist:
  index 0, no drag, and the first \<open>startAutoPlay()\<close> done. \<open>dots0\<close> is the markup's
  \<open>active\<close> flag of each dot.
\<close>

definition initTestimonialsSlider :: "bool list \<Rightarrow> slider" where
  "initTestimonialsSlider dots0 =
     startAutoPlay
       \<lparr>currentIndex = 0, trackTransform = None, dotsActive = dots0,
        autoPlayInterval = None, startX = 0, isDragging = False,
        intervals = [], nextHandle = 0\<rparr>"

section \<open>Navigation highlighting (updateActiveNavLink)\<close>

text \<open>
  A \<open>section[id]\<close> element with the layout numbers the routine reads, and a nav link with
  its \<open>href\<close> attribute (\<open>None\<close> when the attribute is absent, so that \<open>getAttribute\<close>
  gives null) and whether its class list has \<open>active\<close>. \<open>scrollY\<close> is a JS number.
\<close>

record page_section =
  sectionId :: string
  offsetTop :: int
  offsetHeight :: int

record nav_link =
  href :: "string option"
  active :: bool

definition inBounds :: "real \<Rightarrow> page_section \<Rightarrow> bool" where
  "inBounds scrollY sec =
     (let sectionHeight = offsetHeight sec;
          sectionTop = offsetTop sec - 100
      in scrollY > real_of_int sectionTop \<and> scrollY \<le> real_of_int (sectionTop + sectionHeight))"

definition toggleActive :: "string \<Rightarrow> nav_link list \<Rightarrow> nav_link list" where
  "toggleActive sid links =
     map (\<lambda>link. link\<lparr>active := (href link = Some (''#'' @ sid))\<rparr>) links"

definition updateActiveNavLink :: "real \<Rightarrow> page_section list \<Rightarrow> nav_link list \<Rightarrow> nav_link list" where
  "updateActiveNavLink scrollY sections links =
     foldl (\<lambda>ls sec. if inBounds scrollY sec then toggleActive (sectionId sec) ls else ls)
       links sections"

section \<open>Counter animation (animateCounter)\<close>

text \<open>
  The closure of one \<open>animateCounter(element, target)\<close> call: the running value, the
  element's text (\<open>None\<close> while the markup's own text is still there, \<open>Some n\<close> once the
  number \<open>n\<close> has been written) and whether the interval is still scheduled. The
  division \<open>target / steps\<close> and every \<open>current += increment\<close> round to binary64;
  \<open>target\<close> is an integer that a number holds exactly.
\<close>

record counter =
  current :: real
  elementText :: "int option"
  timerLive :: bool

definition animateCounter :: "int \<Rightarrow> counter" where
  "animateCounter target = \<lparr>current = 0, elementText = None, timerLive = True\<rparr>"

definition counterTick :: "int \<Rightarrow> counter \<Rightarrow> counter" where
  "counterTick target c =
     (if \<not> timerLive c then c
      else
        let steps = 50;
            increment = rnd (real_of_int target / steps);
            current1 = rnd (current c + increment)
        in if current1 \<ge> real_of_int target
           then \<lparr>current = current1, elementText = Some target, timerLive = False\<rparr>
           else \<lparr>current = current1, elementText = Some \<lfloor>current1\<rfloor>, timerLive = True\<rparr>)"

fun counterTicks :: "nat \<Rightarrow> int \<Rightarrow> counter \<Rightarrow> counter" where
  "counterTicks 0 target c = c"
| "counterTicks (Suc n) target c = counterTicks n target (counterTick target c)"

section \<open>Typing effect (initTypingEffect)\<close>

definition texts :: "string list" where
  "texts = [''App Developer'', ''Flutter Expert'', ''Kotlin Enthusiast'',
            ''Web Developer'', ''UI/UX Designer'']"

text \<open>
  The closure variables of \<open>type()\<close>, the text of the typing element and the delay handed
  to the last \<open>setTimeout\<close>. \<open>substring(0, k)\<close> clamps \<open>k\<close> to the string, which is
  what \<open>take (nat k)\<close> does. Reading \<open>texts[textIndex]\<close> past the end gives undefined,
  and \<open>.substring\<close> on it throws: the step is then \<open>None\<close> and nothing is rescheduled.
\<close>

record typing =
  textIndex :: nat
  charIndex :: int
  isDeleting :: bool
  typingText :: string
  delay :: nat

definition substring0 :: "string \<Rightarrow> int \<Rightarrow> string" where
  "substring0 s k = take (nat k) s"

definition typeOn :: "string list \<Rightarrow> typing \<Rightarrow> typing option" where
  "typeOn P s =
     (if textIndex s \<ge> length P then None
      else
        let currentText = P ! textIndex s;
            charIndex1 = (if isDeleting s then charIndex s - 1 else charIndex s + 1);
            shown = substring0 currentText charIndex1;
            speed = (if isDeleting s then 50 else 100)
        in if \<not> isDeleting s \<and> charIndex1 = int (length currentText)
           then Some \<lparr>textIndex = textIndex s, charIndex = charIndex1, isDeleting = True,
                       typingText = shown, delay = 2000\<rparr>
           else if isDeleting s \<and> charIndex1 = 0
           then Some \<lparr>textIndex = (textIndex s + 1) mod length P, charIndex = charIndex1,
                       isDeleting = False, typingText = shown, delay = 500\<rparr>
           else Some \<lparr>textIndex = textIndex s, charIndex = charIndex1,
                       isDeleting = isDeleting s, typingText = shown, delay = speed\<rparr>)"

fun typeRunOn :: "string list \<Rightarrow> nat \<Rightarrow> typing \<Rightarrow> typing option" where
  "typeRunOn P 0 s = Some s"
| "typeRunOn P (Suc n) s = (case typeOn P s of None \<Rightarrow> None | Some s' \<Rightarrow> typeRunOn P n s')"

text \<open>
  The states after each of the first \<open>n\<close> calls of \<open>type()\<close>, and from them the strings
  that were on screen when the widget entered its long pause (the 2000 ms timeout is
  set exactly in the branch that finds the phrase complete).
\<close>

fun typeTraceOn :: "string list \<Rightarrow> nat \<Rightarrow> typing \<Rightarrow> typing list" where
  "typeTraceOn P 0 s = []"
| "typeTraceOn P (Suc n) s =
     (case typeOn P s of None \<Rightarrow> [] | Some s' \<Rightarrow> s' # typeTraceOn P n s')"

definition fullyTyped :: "typing list \<Rightarrow> string list" where
  "fullyTyped tr = map typingText (filter (\<lambda>s. delay s = 2000) tr)"

definition type :: "typing \<Rightarrow> typing option" where
  "type = typeOn texts"

definition initTypingEffect :: "string \<Rightarrow> typing" where
  "initTypingEffect markupText =
     \<lparr>textIndex = 0, charIndex = 0, isDeleting = False, typingText = markupText, delay = 0\<rparr>"

text \<open>
  Where the \<open>n\<close>-th phrase (counting from 0, cyclically) starts being typed, in calls of
  \<open>type()\<close> since the start.
\<close>

fun phraseStart :: "string list \<Rightarrow> nat \<Rightarrow> nat" where
  "phraseStart P 0 = 0"
| "phraseStart P (Suc n) = phraseStart P n + 2 * length (P ! (n mod length P))"

section \<open>Theme toggle (initThemeToggle)\<close>

text \<open>
  The class tokens the widget reads and writes, and the value stored under the key
  \<open>portfolio-theme\<close> (\<open>None\<close> when the key is absent). Both \<open>#theme-toggle\<close> and
  \<open>#theme-icon\<close> are taken to exist; without one of them the function returns before
  reading the key or registering the listener.
\<close>

record theme_page =
  lightTheme :: bool
  faMoon :: bool
  faSun :: bool
  storedTheme :: "string option"

text \<open>
  Modelled from the spec: the page markup (index.html, not part of the sources) as a
  reload rebuilds it. The theme preference is the only state surviving a reload, so the
  fresh body has no \<open>light-theme\<close> class and the icon shows the moon; local storage is
  what the previous session left.
\<close>

definition freshPage :: "string option \<Rightarrow> theme_page" where
  "freshPage saved = \<lparr>lightTheme = False, faMoon = True, faSun = False, storedTheme = saved\<rparr>"

definition classReplace :: "bool \<times> bool \<Rightarrow> bool \<times> bool" where
  \<comment> \<open>\<open>classList.replace(old, new)\<close> on the pair (has old, has new)\<close>
  "classReplace on = (if fst on then (False, True) else on)"

definition initThemeToggle :: "theme_page \<Rightarrow> theme_page" where
  "initThemeToggle p =
     (let savedTheme = storedTheme p
      in if savedTheme = Some ''light''
         then p\<lparr>lightTheme := True,
                faMoon := fst (classReplace (faMoon p, faSun p)),
                faSun := snd (classReplace (faMoon p, faSun p))\<rparr>
         else p)"

definition toggleClick :: "theme_page \<Rightarrow> theme_page" where
  "toggleClick p =
     (let isLight = \<not> lightTheme p
      in if isLight
         then p\<lparr>lightTheme := isLight,
                faMoon := fst (classReplace (faMoon p, faSun p)),
                faSun := snd (classReplace (faMoon p, faSun p)),
                storedTheme := Some ''light''\<rparr>
         else p\<lparr>lightTheme := isLight,
                faSun := fst (classReplace (faSun p, faMoon p)),
                faMoon := snd (classReplace (faSun p, faMoon p)),
                storedTheme := Some ''dark''\<rparr>)"

definition reload :: "theme_page \<Rightarrow> theme_page" where
  "reload p = initThemeToggle (freshPage (storedTheme p))"

section \<open>Cursor easing (updateAll)\<close>





section \<open>Notifications and the contact form\<close>

text \<open>
  \<open>showNotification\<close> writes its message into the new element with \<open>innerHTML\<close>, so
  the message is markup. It is given here as the nodes the HTML parser makes of it: a
  plain sentence is one text node. \<open>classCount c h\<close> counts the elements of class \<open>c\<close>
  in the tree \<open>h\<close>, the root included.
\<close>

datatype html = Text string | Element string "string list" "html list"


text \<open>
  The part of the document the two functions touch. \<open>notifications\<close> holds, in document
  order, the elements of class \<open>notification\<close> that are not inside another one, each with
  its node identity, its class attribute and its children; \<open>contactForm\<close> is \<open>None\<close> when
  \<open>#contact-form\<close> is absent. A form field is \<open>None\<close> when the form has no control of
  that name; \<open>submitBtn\<close> is what \<open>form.querySelector('button[type="submit"]')\<close> finds.
\<close>

record notif =
  node :: nat
  className :: string
  children :: "html list"

record button =
  innerHTML :: string
  disabled :: bool

record contact_form =
  nameField :: "string option"
  emailField :: "string option"
  messageField :: "string option"
  submitBtn :: "button option"

record document =
  notifications :: "notif list"
  nextNode :: nat
  contactForm :: "contact_form option"

datatype js_error = TypeError


definition showNotification :: "html list \<Rightarrow> string \<Rightarrow> document \<Rightarrow> document" where
  "showNotification msg ty d =
     (let d1 = d\<lparr>notifications := (case notifications d of [] \<Rightarrow> [] | _ # rest \<Rightarrow> rest)\<rparr>;
          notification =
            \<lparr>node = nextNode d1, className = ''notification '' @ ty,
             children =
               [Element ''i''
                  [''fas'', if ty = ''success'' then ''fa-check-circle''
                            else ''fa-exclamation-circle''] [],
                Element ''span'' [] msg]\<rparr>
      in d1\<lparr>notifications := notifications d1 @ [notification], nextNode := Suc (nextNode d1)\<rparr>)"






definition falsy :: "string option \<Rightarrow> bool" where
  \<comment> \<open>\<open>!v\<close> for a form value: undefined or the empty string\<close>
  "falsy v = (v = None \<or> v = Some [])"

text \<open>
  The submit listener of \<open>initContactForm\<close>, up to the point where it schedules the
  1500 ms timeout. Without the form no listener was registered and nothing happens.
\<close>

definition contactSubmit :: "document \<Rightarrow> js_error + document" where
  \<open>contactSubmit d =
     (case contactForm d of
        None \<Rightarrow> Inr d
      | Some form \<Rightarrow>
          if falsy (nameField form) \<or> falsy (emailField form) \<or> falsy (messageField form)
          then Inr (showNotification [Text ''Please fill in all required fields.''] ''error'' d)
          else
            (case submitBtn form of
               None \<Rightarrow> Inl TypeError
             | Some b \<Rightarrow>
                 Inr (d\<lparr>contactForm := Some (form\<lparr>submitBtn :=
                        Some (b\<lparr>innerHTML := ''<i class="fas fa-spinner fa-spin"></i> Sending...'',
                                disabled := True\<rparr>)\<rparr>)\<rparr>)))\<close>

section \<open>Binary64 rounding: exponent and error bounds\<close>

lemma ilog2_bounds:
  "0 < x \<Longrightarrow> 2 powi (ilog2 x) \<le> x \<and> x < 2 powi (ilog2 x + 1)"
proof (induction x rule: ilog2.induct)
  case (1 x)
  show ?case
  proof (cases "2 \<le> x")
    case True
    with 1 have ih: "2 powi (ilog2 (x / 2)) \<le> x / 2 \<and> x / 2 < 2 powi (ilog2 (x / 2) + 1)"
      by simp
    from True "1.prems" have e: "ilog2 x = ilog2 (x / 2) + 1"
      by (subst ilog2.simps) simp
    from ih show ?thesis unfolding e
      by (simp add: power_int_add)
  next
    case False
    show ?thesis
    proof (cases "x < 1")
      case True
      with False 1 have ih: "2 powi (ilog2 (x * 2)) \<le> x * 2 \<and> x * 2 < 2 powi (ilog2 (x * 2) + 1)"
        by simp
      from True False "1.prems" have e: "ilog2 x = ilog2 (x * 2) - 1"
        by (subst ilog2.simps) simp
      from ih show ?thesis unfolding e
        by (simp add: power_int_add power_int_diff)
    next
      case f: False
      with False "1.prems" have e: "ilog2 x = 0"
        by (subst ilog2.simps) simp
      from f False show ?thesis unfolding e by simp
    qed
  qed
qed

lemma pow2_less_imp:
  assumes "(2::real) powi a < 2 powi b"
  shows "a < b"
proof (rule ccontr)
  assume "\<not> a < b"
  then have "b \<le> a" by simp
  then have "(2::real) powi b \<le> 2 powi a" by (intro power_int_increasing) simp_all
  with assms show False by simp
qed

lemma ilog2_unique:
  assumes "2 powi e \<le> x" and "x < 2 powi (e + 1)"
  shows "ilog2 x = e"
proof -
  have pos: "0 < x" using assms(1) zero_less_power_int [of "2::real" e] by linarith
  note b = ilog2_bounds [OF pos]
  have "2 powi e < (2::real) powi (ilog2 x + 1)" using assms(1) b by linarith
  then have 1: "e < ilog2 x + 1" by (rule pow2_less_imp)
  have "2 powi (ilog2 x) < (2::real) powi (e + 1)" using assms(2) b by linarith
  then have 2: "ilog2 x < e + 1" by (rule pow2_less_imp)
  from 1 2 show ?thesis by linarith
qed

lemma roundEven_error: "\<bar>of_int (roundEven y) - y\<bar> \<le> 1 / 2"
proof -
  have "of_int \<lfloor>y\<rfloor> \<le> y" "y < of_int \<lfloor>y\<rfloor> + 1" by linarith+
  then show ?thesis by (auto simp: roundEven_def Let_def)
qed

lemma roundEven_of_int: "roundEven (of_int m) = m"
  by (simp add: roundEven_def)



lemma rnd_zero [simp]: "rnd 0 = 0"
  by (simp add: rnd_def)

lemma rnd_eval:
  assumes "2 powi e \<le> \<bar>x\<bar>" and "\<bar>x\<bar> < 2 powi (e + 1)" and "- 1022 \<le> e"
  shows "rnd x = of_int (roundEven (x / 2 powi (e - 52))) * 2 powi (e - 52)"
proof -
  have "0 < \<bar>x\<bar>" using assms(1) zero_less_power_int [of "2::real" e] by linarith
  then have nz: "x \<noteq> 0" by simp
  have "ilog2 \<bar>x\<bar> = e" using assms(1,2) by (rule ilog2_unique)
  with nz assms(3) show ?thesis by (simp add: rnd_def Let_def max_def)
qed

lemma rnd_error_bound:
  assumes "\<bar>x\<bar> < 2 powi (k + 1)" and "- 1022 \<le> k"
  shows "\<bar>rnd x - x\<bar> \<le> 2 powi (k - 53)"
proof (cases "x = 0")
  case True
  then show ?thesis by simp
next
  case False
  define e where "e = max (ilog2 \<bar>x\<bar>) (- 1022)"
  define u :: real where "u = 2 powi (e - 52)"
  have upos: "0 < u" by (simp add: u_def)
  from False have pos: "0 < \<bar>x\<bar>" by simp
  have "2 powi (ilog2 \<bar>x\<bar>) < (2::real) powi (k + 1)"
    using ilog2_bounds [OF pos] assms(1) by linarith
  then have "ilog2 \<bar>x\<bar> < k + 1" by (rule pow2_less_imp)
  with assms(2) have ek: "e \<le> k" by (simp add: e_def)
  have r: "rnd x = of_int (roundEven (x / u)) * u"
    using False by (simp add: rnd_def Let_def e_def u_def)
  have "rnd x - x = (of_int (roundEven (x / u)) - x / u) * u"
    using upos by (simp add: r field_simps)
  then have "\<bar>rnd x - x\<bar> = \<bar>of_int (roundEven (x / u)) - x / u\<bar> * u"
    using upos by (simp add: abs_mult)
  also have "\<dots> \<le> (1 / 2) * u"
    using upos roundEven_error [of "x / u"] by (intro mult_right_mono) simp_all
  also have "u \<le> 2 powi (k - 52)"
    unfolding u_def using ek by (intro power_int_increasing) simp_all
  finally have "\<bar>rnd x - x\<bar> \<le> (1 / 2) * 2 powi (k - 52)" by simp
  also have "(1 / 2) * 2 powi (k - 52) = (2::real) powi (k - 53)"
    by (simp add: power_int_diff)
  finally show ?thesis .
qed

lemma rnd_rel_error:
  assumes "2 powi (- 1022) \<le> \<bar>x\<bar>"
  shows "\<bar>rnd x - x\<bar> \<le> \<bar>x\<bar> * 2 powi (- 53)"
proof -
  have pos: "0 < \<bar>x\<bar>" using assms zero_less_power_int [of "2::real" "- 1022"] by linarith
  note b = ilog2_bounds [OF pos]
  have "2 powi (- 1022) < (2::real) powi (ilog2 \<bar>x\<bar> + 1)" using assms b by linarith
  then have lo: "- 1022 \<le> ilog2 \<bar>x\<bar>" using pow2_less_imp by fastforce
  have "\<bar>x\<bar> < 2 powi (ilog2 \<bar>x\<bar> + 1)" using b by simp
  from rnd_error_bound [OF this lo]
  have "\<bar>rnd x - x\<bar> \<le> 2 powi (ilog2 \<bar>x\<bar> - 53)" .
  also have "\<dots> = 2 powi (ilog2 \<bar>x\<bar>) * 2 powi (- 53)"
    by (simp add: power_int_diff power_int_minus_divide)
  also have "\<dots> \<le> \<bar>x\<bar> * 2 powi (- 53)"
    using b by (intro mult_right_mono) simp_all
  finally show ?thesis .
qed

lemma rnd_of_int:
  assumes "\<bar>n\<bar> < 2 ^ 53"
  shows "rnd (of_int n) = of_int n"
proof (cases "n = 0")
  case True
  then show ?thesis by simp
next
  case False
  let ?x = "of_int n :: real"
  define e where "e = ilog2 \<bar>?x\<bar>"
  from False have pos: "0 < \<bar>?x\<bar>" by simp
  note b = ilog2_bounds [OF pos, folded e_def]
  from False have "1 \<le> \<bar>n\<bar>" by simp
  then have "(1::real) \<le> \<bar>?x\<bar>" by (metis of_int_1 of_int_abs of_int_le_iff)
  then have "2 powi 0 < (2::real) powi (e + 1)" using b by simp
  then have e0: "0 \<le> e" using pow2_less_imp by fastforce
  have "\<bar>?x\<bar> < 2 ^ 53" using assms by (metis of_int_abs of_int_less_numeral_power_cancel_iff)
  then have "2 powi e < (2::real) powi 53" using b by simp
  then have e52: "e \<le> 52" using pow2_less_imp by fastforce
  have u: "(2::real) powi (e - 52) = 1 / 2 ^ nat (52 - e)"
    using e52 by (simp add: power_int_def power_one_over)
  have q: "?x / 2 powi (e - 52) = of_int (n * 2 ^ nat (52 - e))"
    by (simp add: u)
  have "rnd ?x = of_int (roundEven (?x / 2 powi (e - 52))) * 2 powi (e - 52)"
    using b e0 by (intro rnd_eval) simp_all
  also have "\<dots> = ?x"
    unfolding q roundEven_of_int by (simp add: u)
  finally show ?thesis .
qed


section \<open>Carousel: index arithmetic\<close>

lemma goToSlide_index:
  "currentIndex (goToSlide L index s) =
     (if index < 0 then (if int L - 1 \<ge> int L then 0 else int L - 1)
      else if index \<ge> int L then 0 else index)"
  by (simp add: goToSlide_def Let_def)

lemma stopAutoPlay_index [simp]: "currentIndex (stopAutoPlay s) = currentIndex s"
  by (simp add: stopAutoPlay_def split: option.splits)

lemma startAutoPlay_index [simp]: "currentIndex (startAutoPlay s) = currentIndex s"
  by (simp add: startAutoPlay_def)

lemma goToSlide_next_mod:
  assumes "0 \<le> i" "i < int L"
  shows "currentIndex (goToSlide L (i + 1) s) = (i + 1) mod int L"
proof (cases "i + 1 \<ge> int L")
  case True
  with assms have "i + 1 = int L" by linarith
  then show ?thesis by (simp add: goToSlide_index)
next
  case False
  with assms show ?thesis by (simp add: goToSlide_index)
qed

lemma goToSlide_prev_mod:
  assumes "0 \<le> i" "i < int L"
  shows "currentIndex (goToSlide L (i - 1) s) = (i - 1) mod int L"
proof (cases "i = 0")
  case True
  have "(- 1) mod int L = int L - 1"
    using assms by (simp add: zmod_minus1)
  with True show ?thesis by (simp add: goToSlide_index)
next
  case False
  with assms show ?thesis by (simp add: goToSlide_index)
qed

text \<open>
  C2. With L >= 1 cards and the current index i in [0, L): goToSlide(i+1) lands on
  (i+1) mod L and goToSlide(i-1) on (i-1) mod L; in particular next from L-1 gives 0
  and prev from 0 gives L-1. The next and prev buttons perform exactly these calls.
\<close>

theorem carousel_wraps_both_ways:
  assumes "1 \<le> L" and "0 \<le> currentIndex s" and "currentIndex s < int L"
  shows "currentIndex (goToSlide L (currentIndex s + 1) s) = (currentIndex s + 1) mod int L
       \<and> currentIndex (goToSlide L (currentIndex s - 1) s) = (currentIndex s - 1) mod int L
       \<and> (currentIndex s = int L - 1 \<longrightarrow> currentIndex (goToSlide L (currentIndex s + 1) s) = 0)
       \<and> (currentIndex s = 0 \<longrightarrow> currentIndex (goToSlide L (currentIndex s - 1) s) = int L - 1)
       \<and> currentIndex (handle L NextClick s) = (currentIndex s + 1) mod int L
       \<and> currentIndex (handle L PrevClick s) = (currentIndex s - 1) mod int L"
proof -
  let ?i = "currentIndex s"
  have n: "currentIndex (goToSlide L (?i + 1) s) = (?i + 1) mod int L"
    using assms by (simp add: goToSlide_next_mod)
  have p: "currentIndex (goToSlide L (?i - 1) s) = (?i - 1) mod int L"
    using assms by (simp add: goToSlide_prev_mod)
  have n0: "?i = int L - 1 \<longrightarrow> currentIndex (goToSlide L (?i + 1) s) = 0"
    using assms by (simp add: goToSlide_index)
  have p0: "?i = 0 \<longrightarrow> currentIndex (goToSlide L (?i - 1) s) = int L - 1"
    using assms by (simp add: goToSlide_index)
  have hn: "currentIndex (handle L NextClick s) = currentIndex (goToSlide L (?i + 1) s)"
    by (simp add: goToSlide_index)
  have hp: "currentIndex (handle L PrevClick s) = currentIndex (goToSlide L (?i - 1) s)"
    by (simp add: goToSlide_index)
  from n p n0 p0 hn hp show ?thesis by simp
qed

theorem carousel_wraps_both_ways_witness:
  "(1::nat) \<le> 3
   \<and> 0 \<le> currentIndex (initTestimonialsSlider [True, False, False])
   \<and> currentIndex (initTestimonialsSlider [True, False, False]) < int 3
   \<and> currentIndex (goToSlide 3 (currentIndex (initTestimonialsSlider [True, False, False]) - 1)
         (initTestimonialsSlider [True, False, False])) = 2
   \<and> currentIndex (handle 3 NextClick (initTestimonialsSlider [True, False, False])) = 1"
  using carousel_wraps_both_ways [of 3 "initTestimonialsSlider [True, False, False]"]
  by (simp add: initTestimonialsSlider_def startAutoPlay_def)

section \<open>Carousel: swipe gesture\<close>

lemma touch_gesture_index:
  "currentIndex (handle L (TouchEnd ex) (handle L (TouchStart sx) s)) =
     (if \<bar>rnd (sx - ex)\<bar> > 50
      then currentIndex (goToSlide L (if rnd (sx - ex) > 0 then currentIndex s + 1
                                      else currentIndex s - 1) s)
      else currentIndex s)"
  by (simp add: Let_def stopAutoPlay_def goToSlide_index split: option.splits)

lemma neighbour_differs:
  assumes "2 \<le> L" "0 \<le> i" "i < int L"
  shows "(i + 1) mod int L \<noteq> i" "(i - 1) mod int L \<noteq> i"
proof -
  show "(i + 1) mod int L \<noteq> i"
  proof (cases "i + 1 = int L")
    case True then show ?thesis using assms by simp
  next
    case False then show ?thesis using assms by simp
  qed
  show "(i - 1) mod int L \<noteq> i"
  proof (cases "i = 0")
    case True then show ?thesis using assms by (simp add: zmod_minus1)
  next
    case False then show ?thesis using assms by simp
  qed
qed

text \<open>
  C6 (as amended). A swipe is a touchstart at startX followed by a touchend at endX, and
  the listener compares the difference startX - endX as the subtraction computes it, that
  is, rounded to binary64. On a carousel of L >= 1 cards at an index in [0, L), the gesture
  performs next when that difference exceeds 50, prev when it is below -50, and leaves
  the index alone otherwise; with two or more cards the index changes exactly when the
  magnitude of the computed difference exceeds 50. Whenever the subtraction is exact, as
  it is for integer pixel coordinates, this is the test |startX - endX| > 50.
\<close>

theorem swipe_threshold:
  assumes "1 \<le> L" and "0 \<le> currentIndex s" and "currentIndex s < int L"
  shows "currentIndex (handle L (TouchEnd ex) (handle L (TouchStart sx) s)) =
           (if \<bar>rnd (sx - ex)\<bar> > 50
            then (if rnd (sx - ex) > 0 then (currentIndex s + 1) mod int L
                  else (currentIndex s - 1) mod int L)
            else currentIndex s)
       \<and> (rnd (sx - ex) = sx - ex \<longrightarrow>
            currentIndex (handle L (TouchEnd ex) (handle L (TouchStart sx) s)) =
              (if \<bar>sx - ex\<bar> > 50
               then (if sx - ex > 0 then (currentIndex s + 1) mod int L
                     else (currentIndex s - 1) mod int L)
               else currentIndex s))
       \<and> (2 \<le> L \<longrightarrow>
            (currentIndex (handle L (TouchEnd ex) (handle L (TouchStart sx) s)) \<noteq> currentIndex s)
              = (\<bar>rnd (sx - ex)\<bar> > 50))"
proof -
  let ?i = "currentIndex s"
  let ?after = "currentIndex (handle L (TouchEnd ex) (handle L (TouchStart sx) s))"
  have a: "?after = (if \<bar>rnd (sx - ex)\<bar> > 50
            then (if rnd (sx - ex) > 0 then (?i + 1) mod int L else (?i - 1) mod int L)
            else ?i)"
    unfolding touch_gesture_index
    using assms by (simp add: goToSlide_next_mod goToSlide_prev_mod)
  have b: "rnd (sx - ex) = sx - ex \<longrightarrow>
        ?after = (if \<bar>sx - ex\<bar> > 50
            then (if sx - ex > 0 then (?i + 1) mod int L else (?i - 1) mod int L)
            else ?i)"
    unfolding a by simp
  have c: "2 \<le> L \<longrightarrow> (?after \<noteq> ?i) = (\<bar>rnd (sx - ex)\<bar> > 50)"
    unfolding a using assms neighbour_differs [of L ?i] by simp
  from a b c show ?thesis by blast
qed

text \<open>Integer coordinates subtract exactly.\<close>

lemma sixty_exact: "rnd (100 - 160) = 100 - 160" "rnd (100 - 40) = 100 - 40" "rnd (100 - 150) = 100 - 150"
  using rnd_of_int [of "- 60"] rnd_of_int [of 60] rnd_of_int [of "- 50"] by simp_all

theorem swipe_threshold_witness:
  "(1::nat) \<le> 3
   \<and> 0 \<le> currentIndex (initTestimonialsSlider [True, False, False])
   \<and> currentIndex (initTestimonialsSlider [True, False, False]) < int 3
   \<and> rnd (100 - 160) = 100 - 160
   \<and> currentIndex (handle 3 (TouchEnd 160) (handle 3 (TouchStart 100)
         (initTestimonialsSlider [True, False, False]))) = 2
   \<and> currentIndex (handle 3 (TouchEnd 40) (handle 3 (TouchStart 100)
         (initTestimonialsSlider [True, False, False]))) = 1
   \<and> currentIndex (handle 3 (TouchEnd 150) (handle 3 (TouchStart 100)
         (initTestimonialsSlider [True, False, False]))) = 0"
proof -
  let ?s = "initTestimonialsSlider [True, False, False]"
  have i: "currentIndex ?s = 0"
    by (simp add: initTestimonialsSlider_def startAutoPlay_def)
  have h: "(1::nat) \<le> 3" "0 \<le> currentIndex ?s" "currentIndex ?s < int 3"
    by (simp_all add: i)
  from swipe_threshold [OF h, of 160 100] sixty_exact(1)
  have a: "currentIndex (handle 3 (TouchEnd 160) (handle 3 (TouchStart 100) ?s)) = 2"
    by (simp add: i)
  from swipe_threshold [OF h, of 40 100] sixty_exact(2)
  have b: "currentIndex (handle 3 (TouchEnd 40) (handle 3 (TouchStart 100) ?s)) = 1"
    by (simp add: i)
  from swipe_threshold [OF h, of 150 100] sixty_exact(3)
  have c: "currentIndex (handle 3 (TouchEnd 150) (handle 3 (TouchStart 100) ?s)) = 0"
    by (simp add: i)
  from h a b c sixty_exact(1) show ?thesis by blast
qed

text \<open>
  The binary64 values of the literals 50.1 and 0.1, and their computed difference.
\<close>

lemma fifty_point_one: "rnd (501 / 10) = 7050948166601933 / 2 ^ 47"
  by (subst rnd_eval [where e = 5]) (simp_all add: roundEven_def Let_def)

lemma point_one: "rnd (1 / 10) = 3602879701896397 / 2 ^ 55"
  by (subst rnd_eval [where e = "- 4"]) (simp_all add: roundEven_def Let_def)

lemma rounded_to_fifty:
  "rnd (7050948166601933 / 2 ^ 47 - 3602879701896397 / 2 ^ 55) = 50"
  by (subst rnd_eval [where e = 5]) (simp_all add: roundEven_def Let_def)

text \<open>
  C6 (as stated) fails where the subtraction rounds: a touch that starts at 50.1 and ends
  at 0.1 (the binary64 values of these literals) has moved by more than 50, the computed
  difference is exactly 50, and the 3-card carousel stays at index 0.
\<close>

theorem swipe_just_over_fifty_ignored:
  "\<bar>rnd (501 / 10) - rnd (1 / 10)\<bar> > 50
   \<and> currentIndex (handle 3 (TouchEnd (rnd (1 / 10))) (handle 3 (TouchStart (rnd (501 / 10)))
         (initTestimonialsSlider [True, False, False]))) = 0"
proof -
  have d: "rnd (rnd (501 / 10) - rnd (1 / 10)) = 50"
    unfolding fifty_point_one point_one by (rule rounded_to_fifty)
  have far: "\<bar>rnd (501 / 10) - rnd (1 / 10)\<bar> > 50"
    unfolding fifty_point_one point_one by simp
  have still: "currentIndex (handle 3 (TouchEnd (rnd (1 / 10))) (handle 3 (TouchStart (rnd (501 / 10)))
         (initTestimonialsSlider [True, False, False]))) = 0"
    unfolding touch_gesture_index d
    by (simp add: initTestimonialsSlider_def startAutoPlay_def)
  from far still show ?thesis by blast
qed

section \<open>Carousel: autoplay timers\<close>

text \<open>
  The button and dot listeners stop and restart autoplay inside one handler, so from a
  state with one live interval that the variable points to they leave one live interval.
\<close>

lemma click_restarts_single_timer:
  assumes "intervals s = [h]" and "autoPlayInterval s = Some h"
    and "ev = PrevClick \<or> ev = NextClick \<or> (\<exists>i. ev = DotClick i)"
  shows "length (intervals (handle L ev s)) = 1"
  using assms
  by (auto simp: startAutoPlay_def stopAutoPlay_def goToSlide_def Let_def)

text \<open>
  C7. The touch listeners split the pair: touchstart stops autoplay, touchend starts it
  without stopping first. A button click that arrives between the two (finger resting
  on the track, click from the mouse or the keyboard) restarts autoplay in between, and
  touchend then overwrites the handle of that interval: after touchstart, next click,
  touchend on a 3-card carousel the intervals 1 and 2 are both live, and each of them
  advances the slide when it fires.
\<close>

theorem swipe_interleaved_with_click_leaks_timer:
  "intervals (run 3 [TouchStart 200, NextClick, TouchEnd 200]
       (initTestimonialsSlider [True, False, False])) = [1, 2]
   \<and> length (intervals (run 3 [TouchStart 200, NextClick, TouchEnd 200]
       (initTestimonialsSlider [True, False, False]))) = 2
   \<and> currentIndex (run 3 [TouchStart 200, NextClick, TouchEnd 200, IntervalFires 1, IntervalFires 2]
       (initTestimonialsSlider [True, False, False])) = 0"
  by (simp add: initTestimonialsSlider_def startAutoPlay_def stopAutoPlay_def goToSlide_def Let_def)

section \<open>Theme toggle: double toggle and reload\<close>

text \<open>
  C5. Let the page be loaded with the persisted key holding light or dark. Two clicks on
  the theme toggle bring the body's light-theme class back to what the load produced and
  leave the persisted value as it was, and a reload after them yields the page the first
  load produced.
\<close>

theorem theme_double_toggle_roundtrip:
  assumes "saved = Some ''light'' \<or> saved = Some ''dark''"
  shows "lightTheme (toggleClick (toggleClick (initThemeToggle (freshPage saved))))
           = lightTheme (initThemeToggle (freshPage saved))
       \<and> storedTheme (toggleClick (toggleClick (initThemeToggle (freshPage saved)))) = saved
       \<and> reload (toggleClick (toggleClick (initThemeToggle (freshPage saved))))
           = initThemeToggle (freshPage saved)
       \<and> lightTheme (initThemeToggle (freshPage saved)) = (saved = Some ''light'')"
  using assms
  by (auto simp: toggleClick_def initThemeToggle_def freshPage_def reload_def classReplace_def Let_def)

theorem theme_double_toggle_roundtrip_witness:
  "reload (toggleClick (toggleClick (initThemeToggle (freshPage (Some ''light'')))))
     = \<lparr>lightTheme = True, faMoon = False, faSun = True, storedTheme = Some ''light''\<rparr>
   \<and> reload (toggleClick (toggleClick (initThemeToggle (freshPage (Some ''dark'')))))
     = \<lparr>lightTheme = False, faMoon = True, faSun = False, storedTheme = Some ''dark''\<rparr>"
  using theme_double_toggle_roundtrip [of "Some ''light''"]
        theme_double_toggle_roundtrip [of "Some ''dark''"]
  by (simp add: initThemeToggle_def freshPage_def classReplace_def)

section \<open>Notifications: at most one attached\<close>








section \<open>Contact form: the submit listener\<close>

text \<open>
  C9. The submit listener of the contact form reads \<open>submitBtn.innerHTML\<close> without a
  guard. On a page whose form has its three fields filled in but no descendant matching
  \<open>button[type="submit"]\<close>, the listener throws a TypeError instead of doing nothing.
\<close>

theorem contact_submit_without_button_throws:
  "contactSubmit
     \<lparr>notifications = [], nextNode = 0,
      contactForm = Some \<lparr>nameField = Some ''Ann'', emailField = Some ''ann@example.org'',
                          messageField = Some ''Hello'', submitBtn = None\<rparr>\<rparr>
   = Inl TypeError"
  by (simp add: contactSubmit_def falsy_def)

section \<open>Counter animation: the final text\<close>

lemma counterTick_clears_on_target:
  "timerLive c \<Longrightarrow> \<not> timerLive (counterTick N c) \<Longrightarrow> elementText (counterTick N c) = Some N"
  by (simp add: counterTick_def Let_def split: if_splits)

lemma counterTick_stopped: "\<not> timerLive c \<Longrightarrow> counterTick N c = c"
  by (simp add: counterTick_def)

lemma counterTicks_stopped: "\<not> timerLive c \<Longrightarrow> counterTicks m N c = c"
  by (induction m) (simp_all add: counterTick_stopped)

lemma counterTicks_Suc: "counterTicks (Suc n) N c = counterTick N (counterTicks n N c)"
  by (induction n arbitrary: c) simp_all

lemma counterTicks_add: "counterTicks (n + m) N c = counterTicks m N (counterTicks n N c)"
  by (induction n arbitrary: c) simp_all

lemma cleared_shows_target:
  "timerLive (counterTicks k N (animateCounter N))
   \<or> elementText (counterTicks k N (animateCounter N)) = Some N"
proof (induction k)
  case 0
  show ?case by (simp add: animateCounter_def)
next
  case (Suc k)
  let ?c = "counterTicks k N (animateCounter N)"
  show ?case
  proof (cases "timerLive ?c")
    case True
    then show ?thesis
      unfolding counterTicks_Suc using counterTick_clears_on_target [of ?c N] by blast
  next
    case False
    with Suc show ?thesis
      unfolding counterTicks_Suc by (simp add: counterTick_stopped)
  qed
qed


text \<open>
  The unit roundoff of binary64 is \<open>2^-53\<close>: away from the subnormal range a rounded
  result is within that fraction of the exact one.
\<close>

lemma eps_facts:
  "0 < (2::real) powi (- 53)" "(2::real) powi (- 53) \<le> 1 / 2" "2703 * (2::real) powi (- 53) \<le> 1"
  by (simp_all add: power_int_minus_divide)

lemma tiny_below_hundredth: "(2::real) powi (- 1022) \<le> 1 / 100"
proof -
  have "(2::real) powi (- 1022) \<le> 2 powi (- 7)"
    by (intro power_int_increasing) simp_all
  also have "\<dots> \<le> 1 / 100" by (simp add: power_int_minus_divide)
  finally show ?thesis .
qed

lemma rnd_near:
  assumes "1 / 100 \<le> \<bar>x\<bar>"
  shows "x - \<bar>x\<bar> * 2 powi (- 53) \<le> rnd x" and "rnd x \<le> x + \<bar>x\<bar> * 2 powi (- 53)"
proof -
  from assms tiny_below_hundredth have "2 powi (- 1022) \<le> \<bar>x\<bar>" by linarith
  from rnd_rel_error [OF this]
  show "x - \<bar>x\<bar> * 2 powi (- 53) \<le> rnd x" and "rnd x \<le> x + \<bar>x\<bar> * 2 powi (- 53)"
    by linarith+
qed

text \<open>
  One firing below a positive target: the running value grows by at least
  \<open>q - 53 q 2^-53\<close>, where \<open>q\<close> is the exact fiftieth of the target.
\<close>

lemma counter_step_growth:
  fixes c q :: real
  assumes q: "1 / 50 \<le> q" and c0: "0 \<le> c" and cN: "c \<le> 50 * q"
  shows "c + (q - 53 * (q * 2 powi (- 53))) \<le> rnd (c + rnd q)"
proof -
  define e :: real where "e = 2 powi (- 53)"
  define t where "t = q * e"
  note ef = eps_facts [folded e_def]
  have t0: "0 \<le> t" using q ef by (simp add: t_def)
  have th: "t \<le> q / 2"
  proof -
    have "q * e \<le> q * (1 / 2)" using q ef by (intro mult_left_mono) simp_all
    then show ?thesis by (simp add: t_def)
  qed
  have te: "t * e \<le> t"
  proof -
    have "t * e \<le> t * 1" using t0 ef by (intro mult_left_mono) simp_all
    then show ?thesis by simp
  qed
  have "1 / 100 \<le> \<bar>q\<bar>" using q by simp
  from rnd_near [OF this, folded e_def] q
  have inc: "q - t \<le> rnd q" "rnd q \<le> q + t" by (simp_all add: t_def)
  define x where "x = c + rnd q"
  have xlo: "1 / 100 \<le> x" using inc(1) th q c0 by (simp add: x_def)
  then have "1 / 100 \<le> \<bar>x\<bar>" by simp
  from rnd_near(1) [OF this, folded e_def] xlo
  have r: "x - x * e \<le> rnd x" by simp
  have ce: "c * e \<le> (50 * q) * e" using cN ef by (intro mult_right_mono) simp_all
  have ie: "rnd q * e \<le> (q + t) * e" using inc(2) ef by (intro mult_right_mono) simp_all
  have "x * e = c * e + rnd q * e" by (simp add: x_def algebra_simps)
  also have "\<dots> \<le> (50 * q) * e + (q + t) * e" using ce ie by linarith
  also have "\<dots> = 51 * t + t * e" by (simp add: t_def algebra_simps)
  also have "\<dots> \<le> 52 * t" using te by linarith
  finally have xe: "x * e \<le> 52 * t" .
  have "c + (q - 53 * t) \<le> x - x * e" using inc(1) xe by (simp add: x_def)
  with r have "c + (q - 53 * t) \<le> rnd x" by linarith
  then show ?thesis unfolding x_def t_def e_def .
qed

lemma counterTick_live:
  assumes "timerLive c"
  shows "current (counterTick N c) = rnd (current c + rnd (real_of_int N / 50))"
    and "timerLive (counterTick N c) = (rnd (current c + rnd (real_of_int N / 50)) < real_of_int N)"
  using assms by (simp_all add: counterTick_def Let_def not_le)

lemma counter_growth_invariant:
  assumes "0 < N"
  shows "timerLive (counterTicks k N (animateCounter N)) \<longrightarrow>
           0 \<le> current (counterTicks k N (animateCounter N))
         \<and> current (counterTicks k N (animateCounter N)) < real_of_int N
         \<and> real k * (real_of_int N / 50 - 53 * (real_of_int N / 50 * 2 powi (- 53)))
             \<le> current (counterTicks k N (animateCounter N))"
proof (induction k)
  case 0
  show ?case using assms by (simp add: animateCounter_def)
next
  case (Suc k)
  let ?c = "counterTicks k N (animateCounter N)"
  let ?q = "real_of_int N / 50"
  let ?w = "?q - 53 * (?q * 2 powi (- 53))"
  show ?case
  proof
    assume live': "timerLive (counterTicks (Suc k) N (animateCounter N))"
    have live: "timerLive ?c"
    proof (rule ccontr)
      assume "\<not> timerLive ?c"
      then have "counterTicks (Suc k) N (animateCounter N) = ?c"
        unfolding counterTicks_Suc by (rule counterTick_stopped)
      with live' \<open>\<not> timerLive ?c\<close> show False by simp
    qed
    with Suc have ih: "0 \<le> current ?c" "current ?c < real_of_int N" "real k * ?w \<le> current ?c"
      by simp_all
    from assms have q: "1 / 50 \<le> ?q" by simp
    have w0: "0 \<le> ?w"
    proof -
      have "?q * (53 * 2 powi (- 53)) \<le> ?q * 1"
        using q eps_facts(3) by (intro mult_left_mono) simp_all
      then show ?thesis by simp
    qed
    have cN: "current ?c \<le> 50 * ?q" using ih(2) by simp
    from counter_step_growth [OF q ih(1) cN]
    have g: "current ?c + ?w \<le> rnd (current ?c + rnd ?q)" .
    have cur: "current (counterTicks (Suc k) N (animateCounter N)) = rnd (current ?c + rnd ?q)"
      unfolding counterTicks_Suc by (rule counterTick_live(1) [OF live])
    have lt: "rnd (current ?c + rnd ?q) < real_of_int N"
      using live' unfolding counterTicks_Suc counterTick_live(2) [OF live] .
    have "real (Suc k) * ?w = real k * ?w + ?w" by (simp add: algebra_simps)
    with ih(3) g have "real (Suc k) * ?w \<le> rnd (current ?c + rnd ?q)" by linarith
    moreover have "0 \<le> rnd (current ?c + rnd ?q)" using g ih(1) w0 by linarith
    ultimately show "0 \<le> current (counterTicks (Suc k) N (animateCounter N))
         \<and> current (counterTicks (Suc k) N (animateCounter N)) < real_of_int N
         \<and> real (Suc k) * ?w \<le> current (counterTicks (Suc k) N (animateCounter N))"
      unfolding cur using lt by simp
  qed
qed

lemma positive_target_cleared:
  assumes "0 < N"
  shows "\<not> timerLive (counterTicks 51 N (animateCounter N))"
proof
  let ?q = "real_of_int N / 50"
  assume "timerLive (counterTicks 51 N (animateCounter N))"
  with counter_growth_invariant [OF assms, of 51]
  have lt: "current (counterTicks 51 N (animateCounter N)) < real_of_int N"
    and ge: "51 * (?q - 53 * (?q * 2 powi (- 53))) \<le> current (counterTicks 51 N (animateCounter N))"
    by simp_all
  from assms have q: "0 \<le> ?q" by simp
  have "?q * (2703 * 2 powi (- 53)) \<le> ?q * 1"
    using q eps_facts(3) by (intro mult_left_mono) simp_all
  then have "50 * ?q \<le> 51 * (?q - 53 * (?q * 2 powi (- 53)))" by (simp add: algebra_simps)
  with lt ge show False by simp
qed

lemma nonpositive_target_cleared:
  assumes "N \<le> 0"
  shows "\<not> timerLive (counterTick N (animateCounter N))"
proof (cases "N = 0")
  case True
  then show ?thesis by (simp add: counterTick_def animateCounter_def Let_def)
next
  case False
  define q where "q = real_of_int N / 50"
  define e :: real where "e = 2 powi (- 53)"
  define t where "t = q * e"
  note ef = eps_facts [folded e_def]
  from False assms have "N \<le> - 1" by simp
  then have "real_of_int N \<le> - 1" by (metis of_int_le_iff of_int_minus of_int_1)
  then have q: "q \<le> - (1 / 50)" by (simp add: q_def)
  have tq: "q \<le> t"
  proof -
    have "(- q) * e \<le> (- q) * 1" using q ef by (intro mult_left_mono) simp_all
    then show ?thesis by (simp add: t_def)
  qed
  have th: "q / 2 \<le> t"
  proof -
    have "(- q) * e \<le> (- q) * (1 / 2)" using q ef by (intro mult_left_mono) simp_all
    then show ?thesis by (simp add: t_def)
  qed
  have t0: "t \<le> 0" using q ef by (simp add: t_def mult_nonpos_nonneg)
  have te: "t \<le> t * e"
  proof -
    have "(- t) * e \<le> (- t) * 1" using t0 ef by (intro mult_left_mono) simp_all
    then show ?thesis by simp
  qed
  have "1 / 100 \<le> \<bar>q\<bar>" using q by simp
  from rnd_near [OF this, folded e_def] q
  have a: "q + t \<le> rnd q" "rnd q \<le> q - t" by (simp_all add: t_def)
  have aneg: "rnd q \<le> - (1 / 100)" using a(2) th q by linarith
  then have "1 / 100 \<le> \<bar>rnd q\<bar>" by simp
  from rnd_near(1) [OF this, folded e_def] aneg
  have r: "rnd q + rnd q * e \<le> rnd (rnd q)" by simp
  have "(q + t) * e \<le> rnd q * e" using a(1) ef by (intro mult_right_mono) simp_all
  then have "t + t * e \<le> rnd q * e" by (simp add: t_def algebra_simps)
  with te have "2 * t \<le> rnd q * e" by linarith
  with a(1) r have "q + 3 * t \<le> rnd (rnd q)" by linarith
  with tq have "4 * q \<le> rnd (rnd q)" by linarith
  with q have "50 * q \<le> rnd (rnd q)" by linarith
  then have "real_of_int N \<le> rnd (0 + rnd (real_of_int N / 50))" by (simp add: q_def)
  then show ?thesis by (simp add: counterTick_def animateCounter_def Let_def)
qed

text \<open>
  The rounding residue is visible in intermediate frames: for the target 10 the tenth
  firing shows 1, the running value being 1.9999999999999998.
\<close>

lemma ten_after_ten:
  "elementText (counterTicks 10 10 (animateCounter 10)) = Some 1"
  by code_simp

text \<open>
  C3. For every target integer N the counter stops with exactly N on display: by the
  51st firing of the interval the timer is cleared and the element shows N, whatever the
  rounding of the running value did in between; later firings change nothing; and at no
  number of firings is the timer cleared with anything but N on display (while the timer
  is live the element shows the floor of the running value).
\<close>

theorem counter_final_text_is_target:
  "\<not> timerLive (counterTicks 51 N (animateCounter N))
   \<and> elementText (counterTicks 51 N (animateCounter N)) = Some N
   \<and> counterTicks (51 + m) N (animateCounter N) = counterTicks 51 N (animateCounter N)
   \<and> (timerLive (counterTicks k N (animateCounter N))
        \<or> elementText (counterTicks k N (animateCounter N)) = Some N)"
proof -
  have dead: "\<not> timerLive (counterTicks 51 N (animateCounter N))"
  proof (cases "0 < N")
    case True
    then show ?thesis by (rule positive_target_cleared)
  next
    case False
    then have one: "\<not> timerLive (counterTicks 1 N (animateCounter N))"
      using nonpositive_target_cleared [of N] by simp
    have "counterTicks (1 + 50) N (animateCounter N) = counterTicks 1 N (animateCounter N)"
      unfolding counterTicks_add using one by (rule counterTicks_stopped)
    with one show ?thesis by simp
  qed
  then have final: "elementText (counterTicks 51 N (animateCounter N)) = Some N"
    using cleared_shows_target [of 51 N] by blast
  have rest: "counterTicks (51 + m) N (animateCounter N) = counterTicks 51 N (animateCounter N)"
    unfolding counterTicks_add using dead by (rule counterTicks_stopped)
  from dead final rest cleared_shows_target [of k N] show ?thesis by blast
qed

section \<open>Navigation highlighting: the last matching section wins\<close>

lemma toggleActive_idem: "toggleActive a (toggleActive b ls) = toggleActive a ls"
  by (simp add: toggleActive_def)

lemma updateActiveNavLink_snoc:
  "updateActiveNavLink Y (secs @ [x]) links =
     (if inBounds Y x then toggleActive (sectionId x) (updateActiveNavLink Y secs links)
      else updateActiveNavLink Y secs links)"
  by (simp add: updateActiveNavLink_def)

lemma updateActiveNavLink_last_match:
  "updateActiveNavLink Y secs links =
     (if filter (inBounds Y) secs = [] then links
      else toggleActive (sectionId (last (filter (inBounds Y) secs))) links)"
proof (induction secs rule: rev_induct)
  case Nil
  show ?case by (simp add: updateActiveNavLink_def)
next
  case (snoc x secs)
  show ?case
    unfolding updateActiveNavLink_snoc
    by (simp add: snoc toggleActive_idem)
qed

lemma toggleActive_at_most_one:
  "distinct (map href links) \<Longrightarrow> length (filter active (toggleActive sid links)) \<le> 1"
proof (induction links)
  case Nil
  show ?case by (simp add: toggleActive_def)
next
  case (Cons l links)
  have none: "href l = Some (''#'' @ sid) \<Longrightarrow> filter active (toggleActive sid links) = []"
  proof -
    assume h: "href l = Some (''#'' @ sid)"
    with Cons.prems have "\<forall>x \<in> set links. href x \<noteq> Some (''#'' @ sid)"
      by (auto simp: image_iff)
    then show ?thesis by (simp add: toggleActive_def filter_empty_conv)
  qed
  from Cons show ?case
    using none by (cases "href l = Some (''#'' @ sid)") (simp_all add: toggleActive_def)
qed

text \<open>
  C1 (as amended). For every scroll offset Y and every list of sections and nav links:
  when no section's bounds contain Y, one pass leaves every link as it was; otherwise it
  keeps every href and leaves active exactly the links whose href is # followed by the
  id of the last section, in iteration order, whose bounds contain Y. When the links'
  hrefs are pairwise distinct, that is at most one link.
\<close>

theorem nav_highlight_last_match:
  "(filter (inBounds Y) secs = [] \<longrightarrow> updateActiveNavLink Y secs links = links)
   \<and> (filter (inBounds Y) secs \<noteq> [] \<longrightarrow>
        map href (updateActiveNavLink Y secs links) = map href links
      \<and> map active (updateActiveNavLink Y secs links)
          = map (\<lambda>l. href l = Some (''#'' @ sectionId (last (filter (inBounds Y) secs)))) links
      \<and> (distinct (map href links) \<longrightarrow>
            length (filter active (updateActiveNavLink Y secs links)) \<le> 1))"
proof (cases "filter (inBounds Y) secs = []")
  case True
  then show ?thesis by (simp add: updateActiveNavLink_last_match)
next
  case False
  let ?sid = "sectionId (last (filter (inBounds Y) secs))"
  from False have r: "updateActiveNavLink Y secs links = toggleActive ?sid links"
    by (simp add: updateActiveNavLink_last_match)
  have h: "map href (toggleActive ?sid links) = map href links"
    by (simp add: toggleActive_def comp_def)
  have a: "map active (toggleActive ?sid links) = map (\<lambda>l. href l = Some (''#'' @ ?sid)) links"
    by (simp add: toggleActive_def comp_def)
  have d: "distinct (map href links) \<longrightarrow> length (filter active (toggleActive ?sid links)) \<le> 1"
    by (rule impI) (rule toggleActive_at_most_one)
  from False h a d show ?thesis unfolding r by blast
qed

text \<open>
  C1 (as stated) fails when two nav links share an href: at Y = 50 inside the only
  section, both links to it end up active.
\<close>

theorem nav_duplicate_href_two_active:
  "\<not> length (filter active
        (updateActiveNavLink 50
           [\<lparr>sectionId = ''home'', offsetTop = 0, offsetHeight = 600\<rparr>]
           [\<lparr>href = Some ''#home'', active = False\<rparr>,
            \<lparr>href = Some ''#home'', active = False\<rparr>])) \<le> 1"
  by (simp add: updateActiveNavLink_def inBounds_def toggleActive_def Let_def)

theorem nav_highlight_last_match_witness:
  "filter (inBounds 450)
      [\<lparr>sectionId = ''home'', offsetTop = 0, offsetHeight = 600\<rparr>,
       \<lparr>sectionId = ''about'', offsetTop = 500, offsetHeight = 600\<rparr>] \<noteq> []
   \<and> distinct (map href [\<lparr>href = Some ''#home'', active = True\<rparr>,
                           \<lparr>href = Some ''#about'', active = False\<rparr>])
   \<and> map active (updateActiveNavLink 450
        [\<lparr>sectionId = ''home'', offsetTop = 0, offsetHeight = 600\<rparr>,
         \<lparr>sectionId = ''about'', offsetTop = 500, offsetHeight = 600\<rparr>]
        [\<lparr>href = Some ''#home'', active = True\<rparr>,
         \<lparr>href = Some ''#about'', active = False\<rparr>]) = [False, True]
   \<and> filter (inBounds (-200))
      [\<lparr>sectionId = ''home'', offsetTop = 0, offsetHeight = 600\<rparr>] = []
   \<and> updateActiveNavLink (-200)
        [\<lparr>sectionId = ''home'', offsetTop = 0, offsetHeight = 600\<rparr>]
        [\<lparr>href = Some ''#home'', active = True\<rparr>,
         \<lparr>href = Some ''#about'', active = False\<rparr>]
       = [\<lparr>href = Some ''#home'', active = True\<rparr>,
          \<lparr>href = Some ''#about'', active = False\<rparr>]"
  using nav_highlight_last_match [of 450
          "[\<lparr>sectionId = ''home'', offsetTop = 0, offsetHeight = 600\<rparr>,
            \<lparr>sectionId = ''about'', offsetTop = 500, offsetHeight = 600\<rparr>]"
          "[\<lparr>href = Some ''#home'', active = True\<rparr>,
            \<lparr>href = Some ''#about'', active = False\<rparr>]"]
        nav_highlight_last_match [of "-200"
          "[\<lparr>sectionId = ''home'', offsetTop = 0, offsetHeight = 600\<rparr>]"
          "[\<lparr>href = Some ''#home'', active = True\<rparr>,
            \<lparr>href = Some ''#about'', active = False\<rparr>]"]
  by (simp add: inBounds_def Let_def)

section \<open>Cursor easing: the frame loop\<close>
























section \<open>Typing effect: the phrases cycle\<close>

lemma typeOn_typing:
  assumes "i < length P" and "m < length (P ! i)"
  shows "typeOn P \<lparr>textIndex = i, charIndex = int m, isDeleting = False, typingText = t, delay = d\<rparr>
       = Some \<lparr>textIndex = i, charIndex = int (Suc m), isDeleting = (Suc m = length (P ! i)),
               typingText = take (Suc m) (P ! i),
               delay = (if Suc m = length (P ! i) then 2000 else 100)\<rparr>"
proof -
  have "nat (int m + 1) = Suc m" by simp
  moreover have "(int m + 1 = int (length (P ! i))) = (Suc m = length (P ! i))" by linarith
  ultimately show ?thesis
    using assms(1) by (simp add: typeOn_def Let_def substring0_def)
qed

lemma typeOn_deleting:
  assumes "i < length P"
  shows "typeOn P \<lparr>textIndex = i, charIndex = int (Suc m), isDeleting = True, typingText = t, delay = d\<rparr>
       = Some (if m = 0
               then \<lparr>textIndex = (i + 1) mod length P, charIndex = 0, isDeleting = False,
                     typingText = [], delay = 500\<rparr>
               else \<lparr>textIndex = i, charIndex = int m, isDeleting = True,
                     typingText = take m (P ! i), delay = 50\<rparr>)"
  using assms by (simp add: typeOn_def Let_def substring0_def)

lemma typeRunOn_add:
  "typeRunOn P (a + b) s = (case typeRunOn P a s of None \<Rightarrow> None | Some s' \<Rightarrow> typeRunOn P b s')"
  by (induction a arbitrary: s) (simp_all split: option.splits)

lemma typeRunOn_Suc:
  "typeRunOn P (Suc n) s = (case typeRunOn P n s of None \<Rightarrow> None | Some s' \<Rightarrow> typeOn P s')"
  using typeRunOn_add [of P n 1 s] by (simp split: option.splits)

lemma typeTraceOn_add:
  "typeTraceOn P (a + b) s =
     typeTraceOn P a s @ (case typeRunOn P a s of None \<Rightarrow> [] | Some s' \<Rightarrow> typeTraceOn P b s')"
  by (induction a arbitrary: s) (simp_all split: option.splits)

lemma typing_phase:
  assumes "i < length P" and "k < length (P ! i)"
  shows "typeRunOn P (Suc k) \<lparr>textIndex = i, charIndex = 0, isDeleting = False, typingText = t, delay = d\<rparr>
       = Some \<lparr>textIndex = i, charIndex = int (Suc k), isDeleting = (Suc k = length (P ! i)),
               typingText = take (Suc k) (P ! i),
               delay = (if Suc k = length (P ! i) then 2000 else 100)\<rparr>"
  using assms(2)
proof (induction k)
  case 0
  then show ?case using typeOn_typing [OF assms(1), of 0 t d] by simp
next
  case (Suc k)
  then have lt: "k < length (P ! i)" and ne: "Suc k \<noteq> length (P ! i)" by simp_all
  from Suc.IH [OF lt] ne have prev: "typeRunOn P (Suc k)
        \<lparr>textIndex = i, charIndex = 0, isDeleting = False, typingText = t, delay = d\<rparr>
       = Some \<lparr>textIndex = i, charIndex = int (Suc k), isDeleting = False,
               typingText = take (Suc k) (P ! i), delay = 100\<rparr>"
    by simp
  show ?case
    unfolding typeRunOn_Suc [of P "Suc k"] prev option.case
    by (rule typeOn_typing [OF assms(1) Suc.prems])
qed

lemma deleting_phase:
  assumes "i < length P" and "k < length (P ! i)"
  shows "typeRunOn P (Suc k)
           \<lparr>textIndex = i, charIndex = int (length (P ! i)), isDeleting = True, typingText = t, delay = d\<rparr>
       = Some (if length (P ! i) - Suc k = 0
               then \<lparr>textIndex = (i + 1) mod length P, charIndex = 0, isDeleting = False,
                     typingText = [], delay = 500\<rparr>
               else \<lparr>textIndex = i, charIndex = int (length (P ! i) - Suc k), isDeleting = True,
                     typingText = take (length (P ! i) - Suc k) (P ! i), delay = 50\<rparr>)"
  using assms(2)
proof (induction k)
  case 0
  then have len: "length (P ! i) = Suc (length (P ! i) - Suc 0)" by simp
  show ?case
    unfolding typeRunOn_Suc [of P 0] typeRunOn.simps(1) option.case
    by (subst len) (rule typeOn_deleting [OF assms(1)])
next
  case (Suc k)
  then have lt: "k < length (P ! i)" and ne: "length (P ! i) - Suc k \<noteq> 0" by simp_all
  from Suc.prems have len: "length (P ! i) - Suc k = Suc (length (P ! i) - Suc (Suc k))" by simp
  from Suc.IH [OF lt] ne have prev: "typeRunOn P (Suc k)
        \<lparr>textIndex = i, charIndex = int (length (P ! i)), isDeleting = True, typingText = t, delay = d\<rparr>
       = Some \<lparr>textIndex = i, charIndex = int (length (P ! i) - Suc k), isDeleting = True,
               typingText = take (length (P ! i) - Suc k) (P ! i), delay = 50\<rparr>"
    by simp
  show ?case
    unfolding typeRunOn_Suc [of P "Suc k"] prev option.case
    by (subst len) (rule typeOn_deleting [OF assms(1)])
qed


lemma phrase_cycle:
  assumes "i < length P" and "P ! i \<noteq> []"
  shows "typeRunOn P (2 * length (P ! i))
           \<lparr>textIndex = i, charIndex = 0, isDeleting = False, typingText = t, delay = d\<rparr>
       = Some \<lparr>textIndex = (i + 1) mod length P, charIndex = 0, isDeleting = False,
               typingText = [], delay = 500\<rparr>"
proof -
  let ?len = "length (P ! i)"
  from assms(2) obtain m where m: "?len = Suc m" by (cases "P ! i") simp_all
  then have lt: "m < ?len" by simp
  have full: "typeRunOn P ?len
           \<lparr>textIndex = i, charIndex = 0, isDeleting = False, typingText = t, delay = d\<rparr>
       = Some \<lparr>textIndex = i, charIndex = int ?len, isDeleting = True,
               typingText = take ?len (P ! i), delay = 2000\<rparr>"
    using typing_phase [OF assms(1) lt, of t d] m by simp
  have empty: "typeRunOn P ?len
           \<lparr>textIndex = i, charIndex = int ?len, isDeleting = True,
             typingText = take ?len (P ! i), delay = 2000\<rparr>
       = Some \<lparr>textIndex = (i + 1) mod length P, charIndex = 0, isDeleting = False,
               typingText = [], delay = 500\<rparr>"
    using deleting_phase [OF assms(1) lt, of "take ?len (P ! i)" 2000] m by simp
  have "2 * ?len = ?len + ?len" by simp
  then show ?thesis
    by (simp only: typeRunOn_add full option.case empty)
qed

lemma phrase_begins:
  assumes "P \<noteq> []" and "\<forall>p \<in> set P. p \<noteq> []"
  shows "\<exists>t d. typeRunOn P (phraseStart P n) (initTypingEffect t0)
           = Some \<lparr>textIndex = n mod length P, charIndex = 0, isDeleting = False,
                   typingText = t, delay = d\<rparr>
           \<and> (0 < n \<longrightarrow> t = [] \<and> d = 500)"
proof (induction n)
  case 0
  show ?case by (simp add: initTypingEffect_def)
next
  case (Suc n)
  let ?i = "n mod length P"
  from assms(1) have i: "?i < length P" by simp
  with assms(2) have ne: "P ! ?i \<noteq> []" by simp
  from Suc obtain t d where prev: "typeRunOn P (phraseStart P n) (initTypingEffect t0)
           = Some \<lparr>textIndex = ?i, charIndex = 0, isDeleting = False, typingText = t, delay = d\<rparr>"
    by blast
  have nxt: "(?i + 1) mod length P = Suc n mod length P"
    by (simp add: mod_Suc_eq)
  have "typeRunOn P (phraseStart P (Suc n)) (initTypingEffect t0)
       = Some \<lparr>textIndex = Suc n mod length P, charIndex = 0, isDeleting = False,
               typingText = [], delay = 500\<rparr>"
    unfolding phraseStart.simps typeRunOn_add prev option.case phrase_cycle [OF i ne] nxt ..
  then show ?case by simp
qed

lemma typeTraceOn_Suc:
  "typeTraceOn P (Suc n) s =
     typeTraceOn P n s @ (case typeRunOn P (Suc n) s of None \<Rightarrow> [] | Some s' \<Rightarrow> [s'])"
proof -
  have "typeTraceOn P (Suc n) s = typeTraceOn P (n + 1) s" by simp
  also have "\<dots> = typeTraceOn P n s
      @ (case typeRunOn P n s of None \<Rightarrow> [] | Some s' \<Rightarrow> typeTraceOn P 1 s')"
    by (rule typeTraceOn_add)
  also have "(case typeRunOn P n s of None \<Rightarrow> [] | Some s' \<Rightarrow> typeTraceOn P 1 s')
      = (case typeRunOn P (Suc n) s of None \<Rightarrow> [] | Some s' \<Rightarrow> [s'])"
    unfolding typeRunOn_Suc by (simp split: option.splits)
  finally show ?thesis .
qed

lemma fullyTyped_append: "fullyTyped (a @ b) = fullyTyped a @ fullyTyped b"
  by (simp add: fullyTyped_def)

lemma typing_log:
  assumes "i < length P" and "k < length (P ! i)"
  shows "fullyTyped (typeTraceOn P (Suc k)
           \<lparr>textIndex = i, charIndex = 0, isDeleting = False, typingText = t, delay = d\<rparr>)
       = (if Suc k = length (P ! i) then [P ! i] else [])"
  using assms(2)
proof (induction k)
  case 0
  show ?case
    unfolding typeTraceOn_Suc [of P 0] typing_phase [OF assms(1) 0]
    by (simp add: fullyTyped_def)
next
  case (Suc k)
  then have lt: "k < length (P ! i)" and ne: "Suc k \<noteq> length (P ! i)" by simp_all
  from Suc.IH [OF lt] ne have prev: "fullyTyped (typeTraceOn P (Suc k)
           \<lparr>textIndex = i, charIndex = 0, isDeleting = False, typingText = t, delay = d\<rparr>) = []"
    by simp
  show ?case
    unfolding typeTraceOn_Suc [of P "Suc k"] fullyTyped_append prev
      typing_phase [OF assms(1) Suc.prems]
    by (simp add: fullyTyped_def)
qed

lemma deleting_log:
  assumes "i < length P" and "k < length (P ! i)"
  shows "fullyTyped (typeTraceOn P (Suc k)
           \<lparr>textIndex = i, charIndex = int (length (P ! i)), isDeleting = True,
             typingText = t, delay = d\<rparr>) = []"
  using assms(2)
proof (induction k)
  case 0
  show ?case
    unfolding typeTraceOn_Suc [of P 0] deleting_phase [OF assms(1) 0]
    by (simp add: fullyTyped_def)
next
  case (Suc k)
  then have lt: "k < length (P ! i)" by simp
  show ?case
    unfolding typeTraceOn_Suc [of P "Suc k"] fullyTyped_append Suc.IH [OF lt]
      deleting_phase [OF assms(1) Suc.prems]
    by (simp add: fullyTyped_def)
qed

lemma phrase_log:
  assumes "i < length P" and "P ! i \<noteq> []"
  shows "fullyTyped (typeTraceOn P (2 * length (P ! i))
           \<lparr>textIndex = i, charIndex = 0, isDeleting = False, typingText = t, delay = d\<rparr>)
       = [P ! i]"
proof -
  let ?len = "length (P ! i)"
  from assms(2) obtain m where m: "?len = Suc m" by (cases "P ! i") simp_all
  then have lt: "m < ?len" by simp
  have full: "typeRunOn P ?len
           \<lparr>textIndex = i, charIndex = 0, isDeleting = False, typingText = t, delay = d\<rparr>
       = Some \<lparr>textIndex = i, charIndex = int ?len, isDeleting = True,
               typingText = take ?len (P ! i), delay = 2000\<rparr>"
    using typing_phase [OF assms(1) lt, of t d] m by simp
  have a: "fullyTyped (typeTraceOn P ?len
           \<lparr>textIndex = i, charIndex = 0, isDeleting = False, typingText = t, delay = d\<rparr>)
       = [P ! i]"
    using typing_log [OF assms(1) lt, of t d] m by simp
  have b: "fullyTyped (typeTraceOn P ?len
           \<lparr>textIndex = i, charIndex = int ?len, isDeleting = True,
             typingText = take ?len (P ! i), delay = 2000\<rparr>) = []"
    using deleting_log [OF assms(1) lt, of "take ?len (P ! i)" 2000] m by simp
  have "2 * ?len = ?len + ?len" by simp
  then show ?thesis
    by (simp only: typeTraceOn_add fullyTyped_append full option.case a b) simp
qed

lemma cyclic_log:
  assumes "P \<noteq> []" and "\<forall>p \<in> set P. p \<noteq> []"
  shows "fullyTyped (typeTraceOn P (phraseStart P n) (initTypingEffect t0))
       = map (\<lambda>j. P ! (j mod length P)) [0..<n]"
proof (induction n)
  case 0
  show ?case by (simp add: fullyTyped_def)
next
  case (Suc n)
  let ?i = "n mod length P"
  from assms(1) have i: "?i < length P" by simp
  with assms(2) have ne: "P ! ?i \<noteq> []" by simp
  from phrase_begins [OF assms, of n t0] obtain t d where
    prev: "typeRunOn P (phraseStart P n) (initTypingEffect t0)
           = Some \<lparr>textIndex = ?i, charIndex = 0, isDeleting = False, typingText = t, delay = d\<rparr>"
    by blast
  show ?case
    unfolding phraseStart.simps typeTraceOn_add fullyTyped_append Suc prev option.case
      phrase_log [OF i ne]
    by simp
qed


lemma within_phrase:
  assumes "P \<noteq> []" and "\<forall>p \<in> set P. p \<noteq> []" and "k < length (P ! (n mod length P))"
  shows "typeRunOn P (phraseStart P n + Suc k) (initTypingEffect t0)
       = Some \<lparr>textIndex = n mod length P, charIndex = int (Suc k),
               isDeleting = (Suc k = length (P ! (n mod length P))),
               typingText = take (Suc k) (P ! (n mod length P)),
               delay = (if Suc k = length (P ! (n mod length P)) then 2000 else 100)\<rparr>"
    and "typeRunOn P (phraseStart P n + length (P ! (n mod length P)) + Suc k) (initTypingEffect t0)
       = Some (if length (P ! (n mod length P)) - Suc k = 0
               then \<lparr>textIndex = (n mod length P + 1) mod length P, charIndex = 0,
                     isDeleting = False, typingText = [], delay = 500\<rparr>
               else \<lparr>textIndex = n mod length P,
                     charIndex = int (length (P ! (n mod length P)) - Suc k), isDeleting = True,
                     typingText = take (length (P ! (n mod length P)) - Suc k) (P ! (n mod length P)),
                     delay = 50\<rparr>)"
proof -
  let ?i = "n mod length P"
  let ?len = "length (P ! ?i)"
  from assms(1) have i: "?i < length P" by simp
  from assms(3) obtain m where m: "?len = Suc m" by (cases "P ! ?i") simp_all
  then have lt: "m < ?len" by simp
  from phrase_begins [OF assms(1,2), of n t0] obtain t d where
    prev: "typeRunOn P (phraseStart P n) (initTypingEffect t0)
           = Some \<lparr>textIndex = ?i, charIndex = 0, isDeleting = False, typingText = t, delay = d\<rparr>"
    by blast
  show "typeRunOn P (phraseStart P n + Suc k) (initTypingEffect t0)
       = Some \<lparr>textIndex = ?i, charIndex = int (Suc k), isDeleting = (Suc k = ?len),
               typingText = take (Suc k) (P ! ?i),
               delay = (if Suc k = ?len then 2000 else 100)\<rparr>"
    unfolding typeRunOn_add prev option.case
    by (rule typing_phase [OF i assms(3)])
  have full: "typeRunOn P ?len
           \<lparr>textIndex = ?i, charIndex = 0, isDeleting = False, typingText = t, delay = d\<rparr>
       = Some \<lparr>textIndex = ?i, charIndex = int ?len, isDeleting = True,
               typingText = take ?len (P ! ?i), delay = 2000\<rparr>"
    using typing_phase [OF i lt, of t d] m by simp
  show "typeRunOn P (phraseStart P n + ?len + Suc k) (initTypingEffect t0)
       = Some (if ?len - Suc k = 0
               then \<lparr>textIndex = (?i + 1) mod length P, charIndex = 0,
                     isDeleting = False, typingText = [], delay = 500\<rparr>
               else \<lparr>textIndex = ?i, charIndex = int (?len - Suc k), isDeleting = True,
                     typingText = take (?len - Suc k) (P ! ?i), delay = 50\<rparr>)"
    unfolding typeRunOn_add prev option.case full
    by (rule deleting_phase [OF i assms(3)])
qed

lemma texts_nonempty: "texts \<noteq> []" "\<forall>p \<in> set texts. p \<noteq> []"
  by (simp_all add: texts_def)

lemma type_is_step:
  "typeRunOn texts (Suc n) s = (case typeRunOn texts n s of None \<Rightarrow> None | Some s' \<Rightarrow> type s')"
  by (simp only: typeRunOn_Suc type_def)

text \<open>
  C4. Run \<open>type()\<close> over the fixed phrase list from the initial state, for any number
  of calls. The strings on screen when the widget enters its long pause, up to the start
  of the n-th phrase, are the phrases in order, repeated cyclically (the j-th one is
  phrase j mod 5). Within the n-th phrase the text grows by one character per call until
  the phrase is complete, then shrinks by one character per call down to the empty
  string, and the call that empties it leaves the widget at the start of phrase
  (n+1) mod 5.
\<close>

theorem typing_cycles_through_phrases:
  "fullyTyped (typeTraceOn texts (phraseStart texts n) (initTypingEffect t0))
      = map (\<lambda>j. texts ! (j mod length texts)) [0..<n]
   \<and> (k < length (texts ! (n mod length texts)) \<longrightarrow>
        map_option typingText
          (typeRunOn texts (phraseStart texts n + Suc k) (initTypingEffect t0))
          = Some (take (Suc k) (texts ! (n mod length texts)))
      \<and> map_option typingText
          (typeRunOn texts (phraseStart texts n + length (texts ! (n mod length texts)) + Suc k)
             (initTypingEffect t0))
          = Some (take (length (texts ! (n mod length texts)) - Suc k) (texts ! (n mod length texts))))
   \<and> typeRunOn texts (phraseStart texts (Suc n)) (initTypingEffect t0)
      = Some \<lparr>textIndex = Suc n mod length texts, charIndex = 0, isDeleting = False,
              typingText = [], delay = 500\<rparr>"
proof -
  have a: "fullyTyped (typeTraceOn texts (phraseStart texts n) (initTypingEffect t0))
      = map (\<lambda>j. texts ! (j mod length texts)) [0..<n]"
    by (rule cyclic_log [OF texts_nonempty])
  have b: "k < length (texts ! (n mod length texts)) \<longrightarrow>
        map_option typingText
          (typeRunOn texts (phraseStart texts n + Suc k) (initTypingEffect t0))
          = Some (take (Suc k) (texts ! (n mod length texts)))"
  proof
    assume k: "k < length (texts ! (n mod length texts))"
    show "map_option typingText
          (typeRunOn texts (phraseStart texts n + Suc k) (initTypingEffect t0))
          = Some (take (Suc k) (texts ! (n mod length texts)))"
      unfolding within_phrase(1) [OF texts_nonempty k] by simp
  qed
  have c: "k < length (texts ! (n mod length texts)) \<longrightarrow>
        map_option typingText
          (typeRunOn texts (phraseStart texts n + length (texts ! (n mod length texts)) + Suc k)
             (initTypingEffect t0))
          = Some (take (length (texts ! (n mod length texts)) - Suc k) (texts ! (n mod length texts)))"
  proof
    assume k: "k < length (texts ! (n mod length texts))"
    show "map_option typingText
          (typeRunOn texts (phraseStart texts n + length (texts ! (n mod length texts)) + Suc k)
             (initTypingEffect t0))
          = Some (take (length (texts ! (n mod length texts)) - Suc k) (texts ! (n mod length texts)))"
      unfolding within_phrase(2) [OF texts_nonempty k] by simp
  qed
  have d: "typeRunOn texts (phraseStart texts (Suc n)) (initTypingEffect t0)
      = Some \<lparr>textIndex = Suc n mod length texts, charIndex = 0, isDeleting = False,
              typingText = [], delay = 500\<rparr>"
    using phrase_begins [OF texts_nonempty, of "Suc n" t0] by auto
  from a b c d show ?thesis by blast
qed

lemma phraseStart_texts_5: "phraseStart texts 5 = 142"
  by code_simp

lemma one_round_of_texts: "map (\<lambda>j. texts ! (j mod length texts)) [0..<5] = texts"
  by code_simp

lemma first_phrase_again: "texts ! (5 mod length texts) = ''App Developer''"
  by code_simp


theorem typing_cycles_through_phrases_witness:
  "(0::nat) < length ''App Developer''
   \<and> fullyTyped (typeTraceOn texts 142 (initTypingEffect ''Developer'')) = texts
   \<and> map_option typingText (typeRunOn texts (142 + Suc 0) (initTypingEffect ''Developer''))
        = Some ''A''
   \<and> map_option typingText
        (typeRunOn texts (142 + length ''App Developer'' + Suc 0) (initTypingEffect ''Developer''))
        = Some ''App Develope''"
proof -
  have len: "(0::nat) < length ''App Developer''" by simp
  have a: "take (Suc 0) ''App Developer'' = ''A''" by simp
  have b: "take (length ''App Developer'' - Suc 0) ''App Developer'' = ''App Develope''" by simp
  note t = typing_cycles_through_phrases [of 5 "''Developer''" 0,
      unfolded phraseStart_texts_5 first_phrase_again one_round_of_texts a b]
  from t len show ?thesis by blast
qed

end
